theory Spec2Isabelle
  imports Complex_Main
begin

section \<open>Data model of \<open>quint-viz/src/itf.ts\<close>\<close>

text \<open>
  A JavaScript number is an IEEE double. The trace code never computes with numbers: it
  passes them through, tests them against \<open>null\<close> and substitutes the literal \<open>0\<close>.
  A finite double is therefore carried as the real number it denotes (the two signed
  zeros are one value here), beside the three special values.
\<close>

datatype jsnum = Num real | NaN | PosInfinity | NegInfinity

text \<open>
  An ITF cell is whatever \<open>JSON.parse\<close> produced (\<open>unknown\<close> in the source), or
  \<open>undefined\<close> when a property is read that the object does not have. An object is its
  table of own properties, read with \<open>map_of\<close>.
\<close>

datatype jsval =
    JUndefined
  | JNull
  | JBool bool
  | JNum jsnum
  | JStr string
  | JArr "jsval list"
  | JObj "(string \<times> jsval) list"

text \<open>\<open>ItfState\<close>: an object keyed by variable name (and by \<open>#meta\<close>).\<close>

type_synonym ItfState = "(string \<times> jsval) list"

text \<open>
  Property read \<open>obj[key]\<close> on an object produced by \<open>JSON.parse\<close>: the own property,
  or \<open>undefined\<close>. (A name inherited from \<open>Object.prototype\<close> reads as a function or as
  the prototype object, neither of which has a \<open>#bigint\<close> or \<open>tag\<close> property, so both
  extractions answer it as they answer \<open>undefined\<close>.)
\<close>

definition getprop :: "(string \<times> jsval) list \<Rightarrow> string \<Rightarrow> jsval" where
  "getprop props key = (case map_of props key of None \<Rightarrow> JUndefined | Some v \<Rightarrow> v)"

record VariantChange =
  step :: nat
  fromTag :: string
  toTag :: string

section \<open>Name normalisation: \<open>stripPrefix\<close>\<close>

text \<open>
  \<open>name.split("::")\<close>: the string is scanned from the left; at each position where the
  two characters \<open>::\<close> stand, the piece collected so far is closed and the scan goes on
  behind them. The piece after the last separator closes the list, so the list is never
  empty.
\<close>

fun consHead :: "char \<Rightarrow> string list \<Rightarrow> string list" where
  "consHead c [] = [[c]]"
| "consHead c (p # ps) = (c # p) # ps"

fun split_sep :: "string \<Rightarrow> string list" where
  "split_sep [] = [[]]"
| "split_sep [c] = [[c]]"
| "split_sep (c # d # cs) =
     (if c = CHR '':'' \<and> d = CHR '':'' then [] # split_sep cs
      else consHead c (split_sep (d # cs)))"

definition stripPrefix :: "string \<Rightarrow> string" where
  "stripPrefix name = (let parts = split_sep name in parts ! (length parts - 1))"

text \<open>Joining segments with the separator, and the test for a separator inside a string.\<close>

fun join_sep :: "string list \<Rightarrow> string" where
  "join_sep [] = []"
| "join_sep [p] = p"
| "join_sep (p # q # ps) = p @ '':'' @ '':'' @ join_sep (q # ps)"

fun has_sep :: "string \<Rightarrow> bool" where
  "has_sep (c # d # cs) = ((c = CHR '':'' \<and> d = CHR '':'') \<or> has_sep (d # cs))"
| "has_sep _ = False"

section \<open>Cell extraction\<close>

text \<open>
  \<open>Number(s)\<close> on a string is the language's \<open>StringToNumber\<close>. ITF writes an integer
  as its decimal digits with an optional minus sign; on such a string whose value is at
  most \<open>2^53\<close> in magnitude the result is that integer, exactly. Every other string
  (fractions, exponents, hexadecimal, blanks, larger integers that are rounded, text that
  does not parse and yields \<open>NaN\<close>) is left to the parameter \<open>prim\<close>, the primitive
  itself.
\<close>

definition digit_of :: "char \<Rightarrow> nat option" where
  "digit_of c =
     (let n = (of_char c :: nat) in if 48 \<le> n \<and> n \<le> 57 then Some (n - 48) else None)"

fun digits_val :: "nat \<Rightarrow> string \<Rightarrow> nat option" where
  "digits_val acc [] = Some acc"
| "digits_val acc (c # cs) =
     (case digit_of c of None \<Rightarrow> None | Some d \<Rightarrow> digits_val (10 * acc + d) cs)"

fun decimal_integer :: "string \<Rightarrow> int option" where
  "decimal_integer [] = None"
| "decimal_integer (c # cs) =
     (if c = CHR ''-'' then (if cs = [] then None else map_option (\<lambda>n. - int n) (digits_val 0 cs))
      else if c = CHR ''+'' then (if cs = [] then None else map_option int (digits_val 0 cs))
      else map_option int (digits_val 0 (c # cs)))"

definition Number :: "(string \<Rightarrow> jsnum) \<Rightarrow> string \<Rightarrow> jsnum" where
  "Number prim s =
     (case decimal_integer s of
        Some n \<Rightarrow> if \<bar>n\<bar> \<le> 2 ^ 53 then Num (of_int n) else prim s
      | None \<Rightarrow> prim s)"

text \<open>
  \<open>extractNumeric\<close>: a plain number is returned as it is; an object with a string-valued
  \<open>#bigint\<close> property is parsed; everything else is \<open>null\<close> (\<open>None\<close>).
\<close>

fun extractNumeric :: "(string \<Rightarrow> jsnum) \<Rightarrow> jsval \<Rightarrow> jsnum option" where
  "extractNumeric prim (JNum n) = Some n"
| "extractNumeric prim (JObj props) =
     (case map_of props ''#bigint'' of
        Some (JStr s) \<Rightarrow> Some (Number prim s)
      | _ \<Rightarrow> None)"
| "extractNumeric prim _ = None"

text \<open>\<open>extractVariantTag\<close>: the string under \<open>tag\<close> of an object, else \<open>null\<close>.\<close>

fun extractVariantTag :: "jsval \<Rightarrow> string option" where
  "extractVariantTag (JObj props) =
     (case map_of props ''tag'' of
        Some (JStr t) \<Rightarrow> Some t
      | _ \<Rightarrow> None)"
| "extractVariantTag _ = None"

section \<open>Variable classification: \<open>classifyVars\<close>\<close>

record classification =
  numeric :: "string list"
  variant :: "string list"

text \<open>
  The loop over \<open>varNames\<close>, with the two arrays it pushes to. A value that extracts as a
  number is never asked for its tag.
\<close>

fun classifyLoop ::
  "(string \<Rightarrow> jsnum) \<Rightarrow> ItfState \<Rightarrow> string list \<Rightarrow> classification \<Rightarrow> classification" where
  "classifyLoop prim state [] acc = acc"
| "classifyLoop prim state (v # vs) acc =
     (let val = getprop state v in
      if extractNumeric prim val \<noteq> None then
        classifyLoop prim state vs (acc\<lparr>numeric := numeric acc @ [v]\<rparr>)
      else if extractVariantTag val \<noteq> None then
        classifyLoop prim state vs (acc\<lparr>variant := variant acc @ [v]\<rparr>)
      else classifyLoop prim state vs acc)"

definition classifyVars :: "(string \<Rightarrow> jsnum) \<Rightarrow> ItfState \<Rightarrow> string list \<Rightarrow> classification" where
  "classifyVars prim state varNames = classifyLoop prim state varNames \<lparr>numeric = [], variant = []\<rparr>"

section \<open>Series construction: \<open>buildSeries\<close>\<close>

text \<open>
  The result object \<open>series\<close> starts as the literal \<open>{}\<close>: no own property, and
  \<open>Object.prototype\<close> as its prototype. Its properties hold arrays of numbers. The field
  \<open>own\<close> is the table of own properties, the keys of the object; the field \<open>proto\<close>
  is the array that has been made the prototype of the object, \<open>None\<close> as long as the
  prototype is \<open>Object.prototype\<close>.
\<close>

datatype js_error = TypeError

record series =
  own :: "string \<rightharpoonup> jsnum list"
  proto :: "jsnum list option"

definition emptyObj :: series where
  "emptyObj = \<lparr>own = Map.empty, proto = None\<rparr>"

text \<open>
  Assignment \<open>series[key] = arr\<close>: the own property \<open>key\<close> is created or replaced. The
  name \<open>__proto__\<close> is the exception: it is an accessor inherited from
  \<open>Object.prototype\<close>, whose setter makes the array the prototype of the object and
  creates no own property.
\<close>

definition setProp :: "series \<Rightarrow> string \<Rightarrow> jsnum list \<Rightarrow> series" where
  "setProp obj key arr =
     (if key = ''__proto__'' then obj\<lparr>proto := Some arr\<rparr>
      else obj\<lparr>own := (own obj)(key \<mapsto> arr)\<rparr>)"

text \<open>
  Read \<open>series[key]\<close>, as far as it finds an array: the own property, and for
  \<open>__proto__\<close> (the getter) the prototype. \<open>None\<close> stands for every other outcome:
  \<open>undefined\<close>, \<open>Object.prototype\<close> or an inherited member, none of which has a
  \<open>push\<close> method.
\<close>

definition readProp :: "series \<Rightarrow> string \<Rightarrow> jsnum list option" where
  "readProp obj key = (if key = ''__proto__'' then proto obj else own obj key)"

text \<open>The keys of the object (\<open>Object.keys\<close>): its own properties.\<close>

definition ownKeys :: "series \<Rightarrow> string set" where
  "ownKeys obj = dom (own obj)"

text \<open>First loop: \<open>series[stripPrefix(v)] = []\<close> for every name.\<close>

fun initSeries :: "string list \<Rightarrow> series \<Rightarrow> series" where
  "initSeries [] series = series"
| "initSeries (v # vs) series = initSeries vs (setProp series (stripPrefix v) [])"

text \<open>
  Inner loop, for one state:
  \<open>series[stripPrefix(v)].push(extractNumeric(state[v]) ?? 0)\<close> for every name. The read
  comes first; when it finds no array, calling \<open>push\<close> raises a \<open>TypeError\<close>, the only way
  the function can fail. \<open>push\<close> extends the array in place, so the longer array stands
  where the read found it: in the own property, or as the prototype.
\<close>

fun pushState :: "(string \<Rightarrow> jsnum) \<Rightarrow> ItfState \<Rightarrow> string list \<Rightarrow> series \<Rightarrow> js_error + series" where
  "pushState prim state [] series = Inr series"
| "pushState prim state (v # vs) series =
     (case readProp series (stripPrefix v) of
        None \<Rightarrow> Inl TypeError
      | Some arr \<Rightarrow>
          pushState prim state vs
            (setProp series (stripPrefix v)
               (arr @ [case extractNumeric prim (getprop state v) of None \<Rightarrow> Num 0 | Some n \<Rightarrow> n])))"

text \<open>Outer loop over the states.\<close>

fun pushStates :: "(string \<Rightarrow> jsnum) \<Rightarrow> ItfState list \<Rightarrow> string list \<Rightarrow> series \<Rightarrow> js_error + series" where
  "pushStates prim [] varNames series = Inr series"
| "pushStates prim (state # states) varNames series =
     (case pushState prim state varNames series of
        Inl e \<Rightarrow> Inl e
      | Inr series' \<Rightarrow> pushStates prim states varNames series')"

definition buildSeries :: "(string \<Rightarrow> jsnum) \<Rightarrow> ItfState list \<Rightarrow> string list \<Rightarrow> js_error + series" where
  "buildSeries prim states varNames = pushStates prim states varNames (initSeries varNames emptyObj)"

text \<open>
  The sample one state contributes for one variable, and the names of a list that share a
  short name, in list order. Both are used to describe what \<open>buildSeries\<close> returns.
\<close>

definition sample :: "(string \<Rightarrow> jsnum) \<Rightarrow> ItfState \<Rightarrow> string \<Rightarrow> jsnum" where
  "sample prim state v =
     (case extractNumeric prim (getprop state v) of None \<Rightarrow> Num 0 | Some n \<Rightarrow> n)"

definition sharing :: "string \<Rightarrow> string list \<Rightarrow> string list" where
  "sharing k varNames = filter (\<lambda>w. stripPrefix w = k) varNames"

section \<open>Variant tags: \<open>buildVariantSeries\<close> and \<open>findVariantChanges\<close>\<close>

definition buildVariantSeries :: "ItfState list \<Rightarrow> string \<Rightarrow> string option list" where
  "buildVariantSeries states varName = map (\<lambda>s. extractVariantTag (getprop s varName)) states"

text \<open>\<open>t ?? "?"\<close> on a tag.\<close>

definition orQuestion :: "string option \<Rightarrow> string" where
  "orQuestion t = (case t of None \<Rightarrow> ''?'' | Some s \<Rightarrow> s)"

text \<open>
  The loop \<open>for (let i = 1; i < tags.length; i++)\<close>, with the array \<open>changes\<close> it pushes
  to. Both reads are inside the array when the guard holds.
\<close>

function findVariantChangesFrom ::
  "string option list \<Rightarrow> nat \<Rightarrow> VariantChange list \<Rightarrow> VariantChange list" where
  "findVariantChangesFrom tags i changes =
     (if i < length tags then
        (if tags ! i \<noteq> tags ! (i - 1) then
           findVariantChangesFrom tags (i + 1)
             (changes @ [\<lparr>step = i, fromTag = orQuestion (tags ! (i - 1)), toTag = orQuestion (tags ! i)\<rparr>])
         else findVariantChangesFrom tags (i + 1) changes)
      else changes)"
  by pat_completeness auto
termination
  by (relation "measure (\<lambda>(tags, i, changes). length tags - i)") auto

declare findVariantChangesFrom.simps [simp del]

definition findVariantChanges :: "string option list \<Rightarrow> VariantChange list" where
  "findVariantChanges tags = findVariantChangesFrom tags 1 []"

text \<open>The event the loop pushes at index \<open>i\<close>.\<close>

definition changeAt :: "string option list \<Rightarrow> nat \<Rightarrow> VariantChange" where
  "changeAt tags i =
     \<lparr>step = i, fromTag = orQuestion (tags ! (i - 1)), toTag = orQuestion (tags ! i)\<rparr>"

section \<open>Reading results at concrete inputs\<close>

text \<open>
  The array read under a name from what \<open>buildSeries\<close> returned, and the keys of what it
  returned.
\<close>

definition seriesAt :: "js_error + series \<Rightarrow> string \<Rightarrow> jsnum list option" where
  "seriesAt r k = (case r of Inl e \<Rightarrow> None | Inr m \<Rightarrow> readProp m k)"

definition keysOf :: "js_error + series \<Rightarrow> string set" where
  "keysOf r = (case r of Inl e \<Rightarrow> {} | Inr m \<Rightarrow> ownKeys m)"

text \<open>
  A stand-in for the primitive at concrete inputs: it answers \<open>NaN\<close>, as
  \<open>StringToNumber\<close> does for text that is no numeric literal. It is only applied to
  such text, or not applied at all.
\<close>

definition nanPrim :: "string \<Rightarrow> jsnum" where
  "nanPrim s = NaN"

section \<open>Facts about \<open>split_sep\<close> and \<open>stripPrefix\<close>\<close>

lemma split_sep_nonempty: "split_sep s \<noteq> []"
  by (induction s rule: split_sep.induct) (auto split: list.splits simp: neq_Nil_conv)

lemma stripPrefix_last: "stripPrefix name = last (split_sep name)"
  by (simp add: stripPrefix_def Let_def last_conv_nth split_sep_nonempty)

lemma split_sep_no_sep: "\<not> has_sep s \<Longrightarrow> split_sep s = [s]"
  by (induction s rule: split_sep.induct) auto

lemma has_sep_Cons:
  "has_sep (c # p) = ((c = CHR '':'' \<and> (\<exists>q. p = CHR '':'' # q)) \<or> has_sep p)"
  by (cases p) auto

lemma split_sep_head: "d \<noteq> CHR '':'' \<Longrightarrow> \<exists>p ps. split_sep (d # cs) = (d # p) # ps"
proof (cases cs)
  case Nil
  then show ?thesis by simp
next
  case (Cons e es)
  assume "d \<noteq> CHR '':''"
  then have "split_sep (d # e # es) = consHead d (split_sep (e # es))" by simp
  moreover obtain q qs where "split_sep (e # es) = q # qs"
    using split_sep_nonempty [of "e # es"] by (cases "split_sep (e # es)") auto
  ultimately show ?thesis using Cons by simp
qed

text \<open>No piece of a split contains the separator.\<close>

lemma split_sep_pieces: "\<forall>p\<in>set (split_sep s). \<not> has_sep p"
proof (induction s rule: split_sep.induct)
  case 1
  then show ?case by simp
next
  case (2 c)
  then show ?case by simp
next
  case (3 c d cs)
  show ?case
  proof (cases "c = CHR '':'' \<and> d = CHR '':''")
    case True
    with 3(1) show ?thesis by simp
  next
    case False
    obtain q qs where q: "split_sep (d # cs) = q # qs"
      using split_sep_nonempty [of "d # cs"] by (cases "split_sep (d # cs)") auto
    have ih: "\<not> has_sep q" "\<forall>p\<in>set qs. \<not> has_sep p"
      using 3(2) [OF False] q by simp_all
    have unfold: "split_sep (c # d # cs) = (c # q) # qs"
      using False q by auto
    have "\<not> has_sep (c # q)"
    proof (cases "c = CHR '':''")
      case True
      with False have d: "d \<noteq> CHR '':''" by simp
      then obtain p ps where "split_sep (d # cs) = (d # p) # ps"
        using split_sep_head by blast
      with q have "q = d # p" by simp
      with d ih(1) show ?thesis by (simp add: has_sep_Cons)
    next
      case False
      with ih(1) show ?thesis by (simp add: has_sep_Cons)
    qed
    with ih(2) unfold show ?thesis by simp
  qed
qed

lemma join_consHead: "ps \<noteq> [] \<Longrightarrow> join_sep (consHead c ps) = c # join_sep ps"
  by (cases ps rule: join_sep.cases) auto

lemma join_Cons: "ps \<noteq> [] \<Longrightarrow> join_sep (p # ps) = p @ '':'' @ '':'' @ join_sep ps"
  by (cases ps) auto

text \<open>The pieces, joined with the separator again, are the name.\<close>

lemma join_split: "join_sep (split_sep s) = s"
  by (induction s rule: split_sep.induct)
     (auto simp: join_consHead join_Cons split_sep_nonempty)

lemma split_sep_append:
  "\<not> has_sep p \<Longrightarrow> p = [] \<or> last p \<noteq> CHR '':'' \<Longrightarrow>
   split_sep (p @ CHR '':'' # CHR '':'' # rest) = p # split_sep rest"
proof (induction p)
  case Nil
  then show ?case by simp
next
  case (Cons c p)
  then show ?case
    by (cases p) (auto simp: has_sep_Cons)
qed

lemma split_join:
  "segs \<noteq> [] \<Longrightarrow> \<forall>p\<in>set segs. \<not> has_sep p \<Longrightarrow>
   \<forall>p\<in>set (butlast segs). p = [] \<or> last p \<noteq> CHR '':'' \<Longrightarrow>
   split_sep (join_sep segs) = segs"
proof (induction segs rule: join_sep.induct)
  case 1
  then show ?case by simp
next
  case (2 p)
  then show ?case by (simp add: split_sep_no_sep)
next
  case (3 p q ps)
  then show ?case by (simp add: split_sep_append)
qed

lemma stripPrefix_idem: "stripPrefix (stripPrefix s) = stripPrefix s"
proof -
  have "last (split_sep s) \<in> set (split_sep s)"
    by (simp add: split_sep_nonempty)
  then have "\<not> has_sep (last (split_sep s))"
    using split_sep_pieces by blast
  then show ?thesis
    by (simp add: stripPrefix_last split_sep_no_sep)
qed

section \<open>What \<open>classifyVars\<close> computes\<close>

lemma numeric_classifyLoop:
  "numeric (classifyLoop prim state vs acc) =
     numeric acc @ filter (\<lambda>v. extractNumeric prim (getprop state v) \<noteq> None) vs"
  by (induction vs arbitrary: acc) (auto simp: Let_def)

lemma variant_classifyLoop:
  "variant (classifyLoop prim state vs acc) =
     variant acc @ filter (\<lambda>v. extractNumeric prim (getprop state v) = None
                               \<and> extractVariantTag (getprop state v) \<noteq> None) vs"
  by (induction vs arbitrary: acc) (auto simp: Let_def)

section \<open>What \<open>buildSeries\<close> computes\<close>

text \<open>Reads and keys after an assignment.\<close>

lemma readProp_setProp:
  "readProp (setProp obj key arr) k = (if k = key then Some arr else readProp obj k)"
  by (simp add: readProp_def setProp_def)

lemma ownKeys_setProp:
  "ownKeys (setProp obj key arr) =
     (if key = ''__proto__'' then ownKeys obj else insert key (ownKeys obj))"
  by (simp add: ownKeys_def setProp_def)

lemma ownKeys_setProp_same:
  "readProp obj key \<noteq> None \<Longrightarrow> ownKeys (setProp obj key arr) = ownKeys obj"
  by (auto simp: ownKeys_def setProp_def readProp_def split: if_splits)

lemma readProp_emptyObj: "readProp emptyObj k = None"
  by (simp add: readProp_def emptyObj_def)

lemma initSeries_read:
  "readProp (initSeries vs obj) k =
     (if k \<in> stripPrefix ` set vs then Some [] else readProp obj k)"
  by (induction vs arbitrary: obj) (auto simp: readProp_setProp)

lemma initSeries_keys:
  "ownKeys (initSeries vs obj) = ownKeys obj \<union> (stripPrefix ` set vs - {''__proto__''})"
  by (induction vs arbitrary: obj) (auto simp: ownKeys_setProp)

text \<open>
  One pass over the names appends, to the array read under every name, the samples of the
  listed names with that short name, in list order, and leaves the keys as they are. No
  read fails once every short name reads an array.
\<close>

lemma pushState_eq:
  "\<forall>v\<in>set vs. readProp obj (stripPrefix v) \<noteq> None \<Longrightarrow>
   \<exists>obj'. pushState prim state vs obj = Inr obj'
     \<and> (\<forall>k. readProp obj' k =
           map_option (\<lambda>arr. arr @ map (sample prim state) (sharing k vs)) (readProp obj k))
     \<and> ownKeys obj' = ownKeys obj"
proof (induction vs arbitrary: obj)
  case Nil
  then show ?case by (simp add: sharing_def option.map_ident)
next
  case (Cons v vs)
  then obtain arr where arr: "readProp obj (stripPrefix v) = Some arr" by auto
  let ?o = "setProp obj (stripPrefix v) (arr @ [sample prim state v])"
  have "\<forall>u\<in>set vs. readProp ?o (stripPrefix u) \<noteq> None"
    using Cons.prems by (simp add: readProp_setProp)
  then obtain obj' where run: "pushState prim state vs ?o = Inr obj'"
    and reads: "\<forall>k. readProp obj' k =
           map_option (\<lambda>arr. arr @ map (sample prim state) (sharing k vs)) (readProp ?o k)"
    and keys: "ownKeys obj' = ownKeys ?o"
    using Cons.IH by blast
  have "pushState prim state (v # vs) obj = pushState prim state vs ?o"
    using arr by (simp add: sample_def)
  with run have "pushState prim state (v # vs) obj = Inr obj'" by simp
  moreover have "readProp obj' k =
      map_option (\<lambda>arr. arr @ map (sample prim state) (sharing k (v # vs))) (readProp obj k)" for k
    using reads arr by (simp add: readProp_setProp sharing_def)
  moreover have "ownKeys obj' = ownKeys obj"
    using keys arr by (simp add: ownKeys_setProp_same)
  ultimately show ?case by blast
qed

lemma pushStates_eq:
  "\<forall>v\<in>set vs. readProp obj (stripPrefix v) \<noteq> None \<Longrightarrow>
   \<exists>obj'. pushStates prim states vs obj = Inr obj'
     \<and> (\<forall>k. readProp obj' k =
           map_option
             (\<lambda>arr. arr @ concat (map (\<lambda>st. map (sample prim st) (sharing k vs)) states))
             (readProp obj k))
     \<and> ownKeys obj' = ownKeys obj"
proof (induction states arbitrary: obj)
  case Nil
  then show ?case by (simp add: option.map_ident)
next
  case (Cons st states)
  obtain mid where run1: "pushState prim st vs obj = Inr mid"
    and reads1: "\<forall>k. readProp mid k =
           map_option (\<lambda>arr. arr @ map (sample prim st) (sharing k vs)) (readProp obj k)"
    and keys1: "ownKeys mid = ownKeys obj"
    using pushState_eq [OF Cons.prems] by blast
  have "\<forall>v\<in>set vs. readProp mid (stripPrefix v) \<noteq> None"
    using Cons.prems reads1 by simp
  then obtain obj' where run2: "pushStates prim states vs mid = Inr obj'"
    and reads2: "\<forall>k. readProp obj' k =
           map_option
             (\<lambda>arr. arr @ concat (map (\<lambda>st. map (sample prim st) (sharing k vs)) states))
             (readProp mid k)"
    and keys2: "ownKeys obj' = ownKeys mid"
    using Cons.IH by blast
  have "pushStates prim (st # states) vs obj = Inr obj'"
    using run1 run2 by simp
  moreover have "readProp obj' k =
      map_option
        (\<lambda>arr. arr @ concat (map (\<lambda>st. map (sample prim st) (sharing k vs)) (st # states)))
        (readProp obj k)" for k
    using reads1 reads2 by (simp add: option.map_comp comp_def)
  moreover have "ownKeys obj' = ownKeys obj"
    using keys1 keys2 by simp
  ultimately show ?case by blast
qed

text \<open>
  The returned object: every short name reads an array, which holds, state after state,
  one sample for every listed name with that short name; no other name reads an array;
  the keys are the short names other than \<open>__proto__\<close>.
\<close>

lemma buildSeries_eq:
  "\<exists>obj. buildSeries prim states vs = Inr obj
     \<and> (\<forall>k. readProp obj k =
           (if k \<in> stripPrefix ` set vs
            then Some (concat (map (\<lambda>st. map (sample prim st) (sharing k vs)) states))
            else None))
     \<and> ownKeys obj = stripPrefix ` set vs - {''__proto__''}"
proof -
  let ?init = "initSeries vs emptyObj"
  have "\<forall>v\<in>set vs. readProp ?init (stripPrefix v) \<noteq> None"
    by (simp add: initSeries_read)
  then obtain obj where run: "pushStates prim states vs ?init = Inr obj"
    and reads: "\<forall>k. readProp obj k =
           map_option
             (\<lambda>arr. arr @ concat (map (\<lambda>st. map (sample prim st) (sharing k vs)) states))
             (readProp ?init k)"
    and keys: "ownKeys obj = ownKeys ?init"
    using pushStates_eq by blast
  have "buildSeries prim states vs = Inr obj"
    using run by (simp add: buildSeries_def)
  moreover have "readProp obj k =
      (if k \<in> stripPrefix ` set vs
       then Some (concat (map (\<lambda>st. map (sample prim st) (sharing k vs)) states))
       else None)" for k
    using reads by (simp add: initSeries_read readProp_emptyObj)
  moreover have "ownKeys obj = stripPrefix ` set vs - {''__proto__''}"
    using keys by (simp add: initSeries_keys) (simp add: ownKeys_def emptyObj_def)
  ultimately show ?thesis by blast
qed

lemma pushStates_Nil: "pushStates prim states [] obj = Inr obj"
  by (induction states) auto

text \<open>A name other than \<open>__proto__\<close> reads its own property.\<close>

lemma readProp_own: "k \<noteq> ''__proto__'' \<Longrightarrow> readProp obj k = own obj k"
  by (simp add: readProp_def)

lemma length_concat_blocks:
  "length (concat (map (\<lambda>st. map (f st) ws) states)) = length states * length ws"
  by (induction states) auto

lemma nth_concat_blocks:
  "i < length states \<Longrightarrow> j < length ws \<Longrightarrow>
   concat (map (\<lambda>st. map (f st) ws) states) ! (i * length ws + j) = f (states ! i) (ws ! j)"
proof (induction states arbitrary: i)
  case Nil
  then show ?case by simp
next
  case (Cons st states)
  show ?case
  proof (cases i)
    case 0
    with Cons.prems show ?thesis by (simp add: nth_append)
  next
    case (Suc i')
    with Cons.prems have "i' < length states" by simp
    from Cons.IH [OF this Cons.prems(2)] Suc show ?thesis
      by (simp add: nth_append add.assoc)
  qed
qed

lemma sharing_mem: "v \<in> set vs \<Longrightarrow> v \<in> set (sharing (stripPrefix v) vs)"
  by (simp add: sharing_def)

lemma sharing_unique:
  "distinct (map stripPrefix vs) \<Longrightarrow> v \<in> set vs \<Longrightarrow> sharing (stripPrefix v) vs = [v]"
proof (induction vs)
  case Nil
  then show ?case by simp
next
  case (Cons w ws)
  show ?case
  proof (cases "v = w")
    case True
    have "stripPrefix w \<notin> stripPrefix ` set ws"
      using Cons.prems(1) by simp
    then have "\<forall>u\<in>set ws. stripPrefix u \<noteq> stripPrefix w"
      by (metis imageI)
    then have "filter (\<lambda>u. stripPrefix u = stripPrefix w) ws = []"
      by (simp add: filter_empty_conv)
    with True show ?thesis by (simp add: sharing_def)
  next
    case False
    with Cons.prems have "v \<in> set ws" "stripPrefix w \<noteq> stripPrefix v" by auto
    with Cons show ?thesis by (simp add: sharing_def)
  qed
qed

lemma sharing_two:
  assumes "v \<in> set vs" "w \<in> set vs" "v \<noteq> w" "stripPrefix v = stripPrefix w"
  shows "2 \<le> length (sharing (stripPrefix v) vs)"
proof -
  have "{v, w} \<subseteq> set (sharing (stripPrefix v) vs)"
    using assms by (simp add: sharing_def)
  then have "card {v, w} \<le> card (set (sharing (stripPrefix v) vs))"
    by (simp add: card_mono)
  also have "\<dots> \<le> length (sharing (stripPrefix v) vs)"
    by (rule card_length)
  finally show ?thesis using assms(3) by simp
qed

lemma sample_absent: "map_of state v = None \<Longrightarrow> sample prim state v = Num 0"
  by (simp add: sample_def getprop_def)

lemma concat_all_zero:
  "\<forall>st\<in>set states. \<forall>w\<in>set ws. f st w = z \<Longrightarrow>
   concat (map (\<lambda>st. map (f st) ws) states) = replicate (length states * length ws) z"
proof (induction states)
  case Nil
  then show ?case by simp
next
  case (Cons st states)
  then have "map (f st) ws = replicate (length ws) z"
    by (simp add: map_replicate_const [symmetric] cong: map_cong)
  with Cons show ?case by (simp add: replicate_add)
qed

section \<open>What \<open>findVariantChanges\<close> computes\<close>

lemma findVariantChangesFrom_eq:
  "findVariantChangesFrom tags i changes =
     changes @ map (changeAt tags) (filter (\<lambda>j. tags ! j \<noteq> tags ! (j - 1)) [i..<length tags])"
proof (induction tags i changes rule: findVariantChangesFrom.induct)
  case (1 tags i changes)
  show ?case
  proof (cases "i < length tags")
    case True
    then have upt: "[i..<length tags] = i # [i + 1..<length tags]"
      by (simp add: upt_conv_Cons)
    show ?thesis
    proof (cases "tags ! i \<noteq> tags ! (i - 1)")
      case diff: True
      have "findVariantChangesFrom tags i changes =
            findVariantChangesFrom tags (i + 1) (changes @ [changeAt tags i])"
        using True diff by (subst findVariantChangesFrom.simps) (simp add: changeAt_def)
      also have "\<dots> = (changes @ [changeAt tags i]) @
          map (changeAt tags) (filter (\<lambda>j. tags ! j \<noteq> tags ! (j - 1)) [i + 1..<length tags])"
        using "1.IH"(1) [OF True diff] by (simp add: changeAt_def)
      finally show ?thesis using diff by (simp add: upt)
    next
      case same: False
      have "findVariantChangesFrom tags i changes = findVariantChangesFrom tags (i + 1) changes"
        using True same by (subst findVariantChangesFrom.simps) simp
      also have "\<dots> = changes @
          map (changeAt tags) (filter (\<lambda>j. tags ! j \<noteq> tags ! (j - 1)) [i + 1..<length tags])"
        using "1.IH"(2) [OF True same] .
      finally show ?thesis using same by (simp add: upt)
    qed
  next
    case False
    then show ?thesis by (subst findVariantChangesFrom.simps) simp
  qed
qed

lemma findVariantChanges_eq:
  "findVariantChanges tags =
     map (changeAt tags) (filter (\<lambda>j. tags ! j \<noteq> tags ! (j - 1)) [1..<length tags])"
  by (simp add: findVariantChanges_def findVariantChangesFrom_eq)

lemma step_changeAt: "step (changeAt tags i) = i"
  by (simp add: changeAt_def)

section \<open>Series construction: length, collisions, defaults, keys\<close>

text \<open>
  Claim C1, as the spec states it: for every trace and every variable name passed to the
  Series Builder, the sequence stored under that variable's short name has length equal to
  the number of states. This fails when two names share a short name: both push to the
  same array. With one state and the names \<open>a::x\<close> and \<open>b::x\<close> the array under \<open>x\<close> has two
  entries.
\<close>

theorem buildSeries_length_counterexample:
  "seriesAt (buildSeries nanPrim
       [[(''a::x'', JNum (Num 1)), (''b::x'', JNum (Num 2))]] [''a::x'', ''b::x''])
     (stripPrefix ''a::x'') = Some [Num 1, Num 2]
   \<and> length [Num 1, Num 2] \<noteq> length [[(''a::x'', JNum (Num 1)), (''b::x'', JNum (Num 2))]]"
  by (simp add: buildSeries_def seriesAt_def stripPrefix_def getprop_def
      readProp_def setProp_def emptyObj_def)

text \<open>
  Claim C1, amended: \<open>buildSeries\<close> returns an object, and the array read from it under
  the short name of a listed variable has as many entries as there are states, times the
  number of listed names with that short name; when the short names of the list are
  pairwise distinct, that is the number of states.
\<close>

theorem buildSeries_length:
  "v \<in> set varNames \<Longrightarrow>
   \<exists>m arr. buildSeries prim states varNames = Inr m \<and> readProp m (stripPrefix v) = Some arr
     \<and> length arr = length states * length (sharing (stripPrefix v) varNames)
     \<and> (distinct (map stripPrefix varNames) \<longrightarrow> length arr = length states)"
proof -
  assume v: "v \<in> set varNames"
  obtain m where run: "buildSeries prim states varNames = Inr m"
    and reads: "\<forall>k. readProp m k =
           (if k \<in> stripPrefix ` set varNames
            then Some (concat (map (\<lambda>st. map (sample prim st) (sharing k varNames)) states))
            else None)"
    using buildSeries_eq by blast
  have "readProp m (stripPrefix v) =
      Some (concat (map (\<lambda>st. map (sample prim st) (sharing (stripPrefix v) varNames)) states))"
    using reads v by simp
  then show ?thesis
    using run v by (simp add: length_concat_blocks sharing_unique)
qed

theorem buildSeries_length_witness:
  "''m::level'' \<in> set [''m::level'', ''m::dose'']
   \<and> distinct (map stripPrefix [''m::level'', ''m::dose''])
   \<and> (\<exists>m arr. buildSeries nanPrim
          [[(''m::level'', JNum (Num 10))], [(''m::level'', JNum (Num 8))], []]
          [''m::level'', ''m::dose''] = Inr m
        \<and> readProp m ''level'' = Some arr \<and> length arr = 3)"
  using buildSeries_length [of "''m::level''" "[''m::level'', ''m::dose'']" nanPrim
      "[[(''m::level'', JNum (Num 10))], [(''m::level'', JNum (Num 8))], []]"]
  by (auto simp: stripPrefix_def)

text \<open>
  Claim C2, as the spec states it: when two names normalise to the same short name, the map
  holds under it exactly the series of the last colliding variable. It does not: with the
  states \<open>[{a::x: 1, b::x: 2}, {a::x: 3, b::x: 4}]\<close> the array under \<open>x\<close> is \<open>[1, 2, 3, 4]\<close>,
  while the series of \<open>b::x\<close>, the last of the two, is \<open>[2, 4]\<close>.
\<close>

theorem buildSeries_collision_counterexample:
  "stripPrefix ''a::x'' = stripPrefix ''b::x''
   \<and> seriesAt (buildSeries nanPrim
         [[(''a::x'', JNum (Num 1)), (''b::x'', JNum (Num 2))],
          [(''a::x'', JNum (Num 3)), (''b::x'', JNum (Num 4))]] [''a::x'', ''b::x'']) ''x''
       = Some [Num 1, Num 2, Num 3, Num 4]
   \<and> seriesAt (buildSeries nanPrim
         [[(''a::x'', JNum (Num 1)), (''b::x'', JNum (Num 2))],
          [(''a::x'', JNum (Num 3)), (''b::x'', JNum (Num 4))]] [''b::x'']) ''x''
       = Some [Num 2, Num 4]"
  by (simp add: buildSeries_def seriesAt_def stripPrefix_def getprop_def
      readProp_def setProp_def emptyObj_def)

text \<open>
  Claim C2, amended: when two different listed names normalise to the same short name,
  nothing is overwritten. The object holds under that short name one array shared by all
  the names with that short name; it contains, state after state in trace order, one sample
  for each of them in list order, so both colliding names contribute to it and it is at
  least twice as long as the trace.
\<close>

theorem buildSeries_collision:
  "v \<in> set varNames \<Longrightarrow> w \<in> set varNames \<Longrightarrow> v \<noteq> w \<Longrightarrow> stripPrefix v = stripPrefix w \<Longrightarrow>
   \<exists>m. buildSeries prim states varNames = Inr m
     \<and> readProp m (stripPrefix v) =
         Some (concat (map (\<lambda>st. map (sample prim st) (sharing (stripPrefix v) varNames)) states))
     \<and> v \<in> set (sharing (stripPrefix v) varNames)
     \<and> w \<in> set (sharing (stripPrefix v) varNames)
     \<and> 2 \<le> length (sharing (stripPrefix v) varNames)"
proof -
  assume a: "v \<in> set varNames" "w \<in> set varNames" "v \<noteq> w" "stripPrefix v = stripPrefix w"
  obtain m where run: "buildSeries prim states varNames = Inr m"
    and reads: "\<forall>k. readProp m k =
           (if k \<in> stripPrefix ` set varNames
            then Some (concat (map (\<lambda>st. map (sample prim st) (sharing k varNames)) states))
            else None)"
    using buildSeries_eq by blast
  have "readProp m (stripPrefix v) =
      Some (concat (map (\<lambda>st. map (sample prim st) (sharing (stripPrefix v) varNames)) states))"
    using reads a(1) by simp
  moreover have "w \<in> set (sharing (stripPrefix v) varNames)"
    using a(2,4) sharing_mem [of w varNames] by simp
  moreover have "2 \<le> length (sharing (stripPrefix v) varNames)"
    using a by (rule sharing_two)
  ultimately show ?thesis
    using run a(1) by (simp add: sharing_mem)
qed

theorem buildSeries_collision_witness:
  "''a::x'' \<in> set [''a::x'', ''b::x''] \<and> ''b::x'' \<in> set [''a::x'', ''b::x'']
   \<and> ''a::x'' \<noteq> ''b::x'' \<and> stripPrefix ''a::x'' = stripPrefix ''b::x''
   \<and> sharing ''x'' [''a::x'', ''b::x''] = [''a::x'', ''b::x'']
   \<and> (\<exists>m. buildSeries nanPrim [[(''a::x'', JNum (Num 1))], [(''b::x'', JNum (Num 4))]]
              [''a::x'', ''b::x''] = Inr m
          \<and> readProp m ''x'' = Some [Num 1, Num 0, Num 0, Num 4])"
  using buildSeries_collision [of "''a::x''" "[''a::x'', ''b::x'']" "''b::x''" nanPrim
      "[[(''a::x'', JNum (Num 1))], [(''b::x'', JNum (Num 4))]]"]
  by (auto simp: stripPrefix_def sharing_def sample_def getprop_def)

text \<open>
  Claim C5. Whenever numeric extraction fails for a variable in a state, also when the
  variable is absent from that state, the value 0 is appended in its place and no error
  is raised: \<open>buildSeries\<close> always returns an object, and in the array read under a short
  name \<open>k\<close> the entry that belongs to state \<open>i\<close> and to the \<open>j\<close>-th listed name with that
  short name (the entry at index \<open>i * c + j\<close>, with \<open>c\<close> names sharing \<open>k\<close>) is 0 when
  extraction fails there. For the states \<open>[{}, {"x": 5}]\<close> and the variable \<open>x\<close> the series
  is \<open>[0, 5]\<close>.
\<close>

theorem buildSeries_missing_is_zero:
  "(\<exists>m. buildSeries prim states varNames = Inr m
      \<and> (i < length states \<and> j < length (sharing k varNames)
           \<and> extractNumeric prim (getprop (states ! i) (sharing k varNames ! j)) = None
         \<longrightarrow> (\<exists>arr. readProp m k = Some arr
               \<and> length arr = length states * length (sharing k varNames)
               \<and> arr ! (i * length (sharing k varNames) + j) = Num 0)))
   \<and> (map_of state v = None \<longrightarrow> extractNumeric prim (getprop state v) = None)
   \<and> seriesAt (buildSeries prim [[], [(''x'', JNum (Num 5))]] [''x'']) ''x''
       = Some [Num 0, Num 5]"
proof (intro conjI)
  obtain m where run: "buildSeries prim states varNames = Inr m"
    and reads: "\<forall>k. readProp m k =
           (if k \<in> stripPrefix ` set varNames
            then Some (concat (map (\<lambda>st. map (sample prim st) (sharing k varNames)) states))
            else None)"
    using buildSeries_eq by blast
  have key: "i < length states \<and> j < length (sharing k varNames)
           \<and> extractNumeric prim (getprop (states ! i) (sharing k varNames ! j)) = None
         \<longrightarrow> (\<exists>arr. readProp m k = Some arr
               \<and> length arr = length states * length (sharing k varNames)
               \<and> arr ! (i * length (sharing k varNames) + j) = Num 0)"
  proof (intro impI, elim conjE)
    assume i: "i < length states" and j: "j < length (sharing k varNames)"
      and fail: "extractNumeric prim (getprop (states ! i) (sharing k varNames ! j)) = None"
    have "sharing k varNames ! j \<in> set (sharing k varNames)"
      using j by simp
    then have "sharing k varNames ! j \<in> set varNames"
      and "stripPrefix (sharing k varNames ! j) = k"
      by (simp_all add: sharing_def)
    then have k: "k \<in> stripPrefix ` set varNames"
      by (rule_tac x = "sharing k varNames ! j" in image_eqI) simp_all
    have "readProp m k =
        Some (concat (map (\<lambda>st. map (sample prim st) (sharing k varNames)) states))"
      using reads k by simp
    moreover have "sample prim (states ! i) (sharing k varNames ! j) = Num 0"
      using fail by (simp add: sample_def)
    ultimately show "\<exists>arr. readProp m k = Some arr
               \<and> length arr = length states * length (sharing k varNames)
               \<and> arr ! (i * length (sharing k varNames) + j) = Num 0"
      using i j by (simp add: length_concat_blocks nth_concat_blocks)
  qed
  show "\<exists>m. buildSeries prim states varNames = Inr m
      \<and> (i < length states \<and> j < length (sharing k varNames)
           \<and> extractNumeric prim (getprop (states ! i) (sharing k varNames ! j)) = None
         \<longrightarrow> (\<exists>arr. readProp m k = Some arr
               \<and> length arr = length states * length (sharing k varNames)
               \<and> arr ! (i * length (sharing k varNames) + j) = Num 0))"
  proof (intro exI conjI)
    show "buildSeries prim states varNames = Inr m"
      by (rule run)
    show "i < length states \<and> j < length (sharing k varNames)
           \<and> extractNumeric prim (getprop (states ! i) (sharing k varNames ! j)) = None
         \<longrightarrow> (\<exists>arr. readProp m k = Some arr
               \<and> length arr = length states * length (sharing k varNames)
               \<and> arr ! (i * length (sharing k varNames) + j) = Num 0)"
      by (rule key)
  qed
next
  show "map_of state v = None \<longrightarrow> extractNumeric prim (getprop state v) = None"
    by (simp add: getprop_def)
next
  show "seriesAt (buildSeries prim [[], [(''x'', JNum (Num 5))]] [''x'']) ''x''
       = Some [Num 0, Num 5]"
    by (simp add: buildSeries_def seriesAt_def stripPrefix_def getprop_def
        readProp_def setProp_def emptyObj_def)
qed

theorem buildSeries_missing_is_zero_witness:
  "(1::nat) < length [[(''t'', JNum (Num 3))], [(''t'', JObj [(''tag'', JStr ''Idle'')])]]
   \<and> (0::nat) < length (sharing ''t'' [''t''])
   \<and> extractNumeric nanPrim
        (getprop ([[(''t'', JNum (Num 3))], [(''t'', JObj [(''tag'', JStr ''Idle'')])]] ! 1)
           (sharing ''t'' [''t''] ! 0)) = None
   \<and> map_of [] ''t'' = None
   \<and> (\<exists>m arr. buildSeries nanPrim
          [[(''t'', JNum (Num 3))], [(''t'', JObj [(''tag'', JStr ''Idle'')])]] [''t''] = Inr m
        \<and> readProp m ''t'' = Some arr \<and> length arr = 2 \<and> arr ! 1 = Num 0)"
  using buildSeries_missing_is_zero [of nanPrim
      "[[(''t'', JNum (Num 3))], [(''t'', JObj [(''tag'', JStr ''Idle'')])]]" "[''t'']"
      1 0 "''t''" "[]" "''t''"]
  by (auto simp: stripPrefix_def sharing_def getprop_def)

text \<open>
  Claim C10, as the spec states it: the keys of the returned map are exactly the short
  names of the input names; a variable that is absent from every state still receives an
  entry, namely an all-zero series; an empty variable list yields an empty map. Two parts
  fail, both at the one state \<open>{a::x: 1}\<close> with the names \<open>a::x\<close>, \<open>b::x\<close> and
  \<open>m::__proto__\<close>. The short name \<open>__proto__\<close> is no key of the returned object: the
  assignment makes the array the prototype of the object, and the only key is \<open>x\<close>. And
  \<open>b::x\<close>, absent from the state, shares its short name with \<open>a::x\<close>: the entry under \<open>x\<close>
  is \<open>[1, 0]\<close>, not all-zero.
\<close>

theorem buildSeries_keys_counterexample:
  "stripPrefix ''m::__proto__'' = ''__proto__''
   \<and> keysOf (buildSeries nanPrim [[(''a::x'', JNum (Num 1))]]
        [''a::x'', ''b::x'', ''m::__proto__'']) = {''x''}
   \<and> ''__proto__'' \<notin> keysOf (buildSeries nanPrim [[(''a::x'', JNum (Num 1))]]
        [''a::x'', ''b::x'', ''m::__proto__''])
   \<and> map_of [(''a::x'', JNum (Num 1))] ''b::x'' = None
   \<and> seriesAt (buildSeries nanPrim [[(''a::x'', JNum (Num 1))]]
        [''a::x'', ''b::x'', ''m::__proto__'']) (stripPrefix ''b::x'') = Some [Num 1, Num 0]
   \<and> [Num 1, Num 0] \<noteq> replicate (length [Num 1, Num 0]) (Num 0)"
  by (simp add: buildSeries_def seriesAt_def keysOf_def ownKeys_def stripPrefix_def getprop_def
      readProp_def setProp_def emptyObj_def)

text \<open>
  Claim C10, amended: \<open>buildSeries\<close> always returns an object; when no input name has the
  short name \<open>__proto__\<close>, the keys of the returned object are exactly the short names of
  the input names, no more and no fewer, and every input variable has an entry under its
  short name. For a variable that is absent from every state the entry is an all-zero
  series whenever every listed name with the same short name is absent from every state
  (so whenever the short name is not shared). An empty variable list yields the empty
  object, whatever the states.
\<close>

theorem buildSeries_keys:
  "(\<exists>m. buildSeries prim states varNames = Inr m
      \<and> (''__proto__'' \<notin> stripPrefix ` set varNames \<longrightarrow>
           ownKeys m = stripPrefix ` set varNames
           \<and> (\<forall>v\<in>set varNames. \<exists>arr. own m (stripPrefix v) = Some arr
                \<and> ((\<forall>st\<in>set states. \<forall>w\<in>set (sharing (stripPrefix v) varNames).
                       map_of st w = None) \<longrightarrow>
                    arr = replicate
                      (length states * length (sharing (stripPrefix v) varNames)) (Num 0)))))
   \<and> buildSeries prim states [] = Inr emptyObj"
proof (intro conjI)
  obtain m where run: "buildSeries prim states varNames = Inr m"
    and reads: "\<forall>k. readProp m k =
           (if k \<in> stripPrefix ` set varNames
            then Some (concat (map (\<lambda>st. map (sample prim st) (sharing k varNames)) states))
            else None)"
    and keys: "ownKeys m = stripPrefix ` set varNames - {''__proto__''}"
    using buildSeries_eq by blast
  have part: "ownKeys m = stripPrefix ` set varNames
           \<and> (\<forall>v\<in>set varNames. \<exists>arr. own m (stripPrefix v) = Some arr
                \<and> ((\<forall>st\<in>set states. \<forall>w\<in>set (sharing (stripPrefix v) varNames).
                       map_of st w = None) \<longrightarrow>
                    arr = replicate
                      (length states * length (sharing (stripPrefix v) varNames)) (Num 0)))"
    if noproto: "''__proto__'' \<notin> stripPrefix ` set varNames"
  proof
    show "ownKeys m = stripPrefix ` set varNames"
      using keys noproto by simp
    show "\<forall>v\<in>set varNames. \<exists>arr. own m (stripPrefix v) = Some arr
                \<and> ((\<forall>st\<in>set states. \<forall>w\<in>set (sharing (stripPrefix v) varNames).
                       map_of st w = None) \<longrightarrow>
                    arr = replicate
                      (length states * length (sharing (stripPrefix v) varNames)) (Num 0))"
    proof
      fix v
      assume v: "v \<in> set varNames"
      let ?arr = "concat (map (\<lambda>st. map (sample prim st) (sharing (stripPrefix v) varNames)) states)"
      have "stripPrefix v \<noteq> ''__proto__''"
        using v noproto by (metis imageI)
      then have "own m (stripPrefix v) = readProp m (stripPrefix v)"
        by (simp add: readProp_own)
      then have entry: "own m (stripPrefix v) = Some ?arr"
        using reads v by simp
      have "?arr = replicate (length states * length (sharing (stripPrefix v) varNames)) (Num 0)"
        if absent: "\<forall>st\<in>set states. \<forall>w\<in>set (sharing (stripPrefix v) varNames). map_of st w = None"
      proof -
        have "\<forall>st\<in>set states. \<forall>w\<in>set (sharing (stripPrefix v) varNames).
            sample prim st w = Num 0"
          using absent by (simp add: sample_absent)
        then show ?thesis by (rule concat_all_zero)
      qed
      with entry show "\<exists>arr. own m (stripPrefix v) = Some arr
                \<and> ((\<forall>st\<in>set states. \<forall>w\<in>set (sharing (stripPrefix v) varNames).
                       map_of st w = None) \<longrightarrow>
                    arr = replicate
                      (length states * length (sharing (stripPrefix v) varNames)) (Num 0))"
        by simp
    qed
  qed
  show "\<exists>m. buildSeries prim states varNames = Inr m
      \<and> (''__proto__'' \<notin> stripPrefix ` set varNames \<longrightarrow>
           ownKeys m = stripPrefix ` set varNames
           \<and> (\<forall>v\<in>set varNames. \<exists>arr. own m (stripPrefix v) = Some arr
                \<and> ((\<forall>st\<in>set states. \<forall>w\<in>set (sharing (stripPrefix v) varNames).
                       map_of st w = None) \<longrightarrow>
                    arr = replicate
                      (length states * length (sharing (stripPrefix v) varNames)) (Num 0))))"
  proof (intro exI conjI impI)
    show "buildSeries prim states varNames = Inr m"
      by (rule run)
  next
    assume "''__proto__'' \<notin> stripPrefix ` set varNames"
    then show "ownKeys m = stripPrefix ` set varNames"
      using part by simp
  next
    assume "''__proto__'' \<notin> stripPrefix ` set varNames"
    then show "\<forall>v\<in>set varNames. \<exists>arr. own m (stripPrefix v) = Some arr
                \<and> ((\<forall>st\<in>set states. \<forall>w\<in>set (sharing (stripPrefix v) varNames).
                       map_of st w = None) \<longrightarrow>
                    arr = replicate
                      (length states * length (sharing (stripPrefix v) varNames)) (Num 0))"
      using part by simp
  qed
next
  show "buildSeries prim states [] = Inr emptyObj"
    by (simp add: buildSeries_def pushStates_Nil)
qed

theorem buildSeries_keys_witness:
  "''__proto__'' \<notin> stripPrefix ` set [''m::level'', ''m::gone'']
   \<and> ''m::gone'' \<in> set [''m::level'', ''m::gone'']
   \<and> map_of [(''m::level'', JNum (Num 10))] ''m::gone'' = None
   \<and> map_of [(''m::level'', JNum (Num 8))] ''m::gone'' = None
   \<and> sharing (stripPrefix ''m::gone'') [''m::level'', ''m::gone''] = [''m::gone'']
   \<and> (\<exists>m. buildSeries nanPrim
          [[(''m::level'', JNum (Num 10))], [(''m::level'', JNum (Num 8))]]
          [''m::level'', ''m::gone''] = Inr m
        \<and> ownKeys m = {''level'', ''gone''}
        \<and> own m ''gone'' = Some [Num 0, Num 0])"
  using buildSeries_keys [of nanPrim
      "[[(''m::level'', JNum (Num 10))], [(''m::level'', JNum (Num 8))]]"
      "[''m::level'', ''m::gone'']"]
  by (auto simp: stripPrefix_def sharing_def numeral_2_eq_2)

section \<open>Change detection\<close>

text \<open>
  Claim C3, as the spec states it: the Change Detector never emits an event with step
  index 0, and for a sequence of length \<open>N\<close> it emits at most \<open>N - 1\<close> events, each with step
  index in the half-open interval \<open>[1, N - 1)\<close>. The interval is one short: the loop runs up
  to \<open>N - 1\<close> inclusive, and for the two tags \<open>A, B\<close> the event has step 1, which is not below
  \<open>N - 1 = 1\<close>.
\<close>

theorem findVariantChanges_interval_counterexample:
  "findVariantChanges [Some ''A'', Some ''B''] = [\<lparr>step = 1, fromTag = ''A'', toTag = ''B''\<rparr>]
   \<and> \<not> step (hd (findVariantChanges [Some ''A'', Some ''B''])) < length [Some ''A'', Some ''B''] - 1"
  by (simp add: findVariantChanges_def findVariantChangesFrom.simps orQuestion_def)

text \<open>
  Claim C3, amended: the Change Detector never emits an event with step index 0, and for
  a sequence of length \<open>N\<close> it emits at most \<open>N - 1\<close> events, each with step index in the
  half-open interval \<open>[1, N)\<close>, that is from 1 to \<open>N - 1\<close> inclusive.
\<close>

theorem findVariantChanges_interval:
  "(\<forall>c\<in>set (findVariantChanges tags). step c \<noteq> 0 \<and> 1 \<le> step c \<and> step c < length tags)
   \<and> length (findVariantChanges tags) \<le> length tags - 1"
proof
  show "\<forall>c\<in>set (findVariantChanges tags). step c \<noteq> 0 \<and> 1 \<le> step c \<and> step c < length tags"
    by (auto simp: findVariantChanges_eq step_changeAt)
next
  have "length (findVariantChanges tags) \<le> length [1..<length tags]"
    unfolding findVariantChanges_eq length_map by (rule length_filter_le)
  then show "length (findVariantChanges tags) \<le> length tags - 1"
    by simp
qed

theorem findVariantChanges_interval_witness:
  "\<lparr>step = 2, fromTag = ''Idle'', toTag = ''Delivering''\<rparr>
     \<in> set (findVariantChanges [Some ''Idle'', Some ''Idle'', Some ''Delivering''])
   \<and> step \<lparr>step = 2, fromTag = ''Idle'', toTag = ''Delivering''\<rparr> \<noteq> 0
   \<and> step \<lparr>step = 2, fromTag = ''Idle'', toTag = ''Delivering''\<rparr>
       < length [Some ''Idle'', Some ''Idle'', Some ''Delivering'']
   \<and> length (findVariantChanges [Some ''Idle'', Some ''Idle'', Some ''Delivering'']) \<le> 2"
  using findVariantChanges_interval [of "[Some ''Idle'', Some ''Idle'', Some ''Delivering'']"]
  by (simp add: findVariantChanges_def findVariantChangesFrom.simps orQuestion_def)

text \<open>
  Claim C4. The Change Detector emits an event at step \<open>i\<close> exactly when
  \<open>1 \<le> i \<le> length - 1\<close> and the tag at \<open>i\<close> differs from the tag at \<open>i - 1\<close>; the events come
  in step order, each with the two tags (an absent tag shown as \<open>?\<close>). Absence is a value
  of its own in the comparison: a step into or out of absence is an event, whatever the
  tag on the other side. The sequence \<open>A, A, B, B, A\<close> yields exactly the events at steps 2
  and 4.
\<close>

theorem findVariantChanges_events:
  "((\<exists>c\<in>set (findVariantChanges tags). step c = i)
      \<longleftrightarrow> (1 \<le> i \<and> i \<le> length tags - 1 \<and> tags ! i \<noteq> tags ! (i - 1)))
   \<and> findVariantChanges tags =
       map (changeAt tags) (filter (\<lambda>i. tags ! i \<noteq> tags ! (i - 1)) [1..<length tags])
   \<and> findVariantChanges [None, Some t] = [\<lparr>step = 1, fromTag = ''?'', toTag = t\<rparr>]
   \<and> findVariantChanges [Some t, None] = [\<lparr>step = 1, fromTag = t, toTag = ''?''\<rparr>]
   \<and> findVariantChanges [Some ''A'', Some ''A'', Some ''B'', Some ''B'', Some ''A''] =
       [\<lparr>step = 2, fromTag = ''A'', toTag = ''B''\<rparr>, \<lparr>step = 4, fromTag = ''B'', toTag = ''A''\<rparr>]"
proof (intro conjI)
  show "(\<exists>c\<in>set (findVariantChanges tags). step c = i)
      \<longleftrightarrow> (1 \<le> i \<and> i \<le> length tags - 1 \<and> tags ! i \<noteq> tags ! (i - 1))"
    by (auto simp: findVariantChanges_eq step_changeAt)
next
  show "findVariantChanges tags =
       map (changeAt tags) (filter (\<lambda>i. tags ! i \<noteq> tags ! (i - 1)) [1..<length tags])"
    by (rule findVariantChanges_eq)
next
  show "findVariantChanges [None, Some t] = [\<lparr>step = 1, fromTag = ''?'', toTag = t\<rparr>]"
    by (simp add: findVariantChanges_def findVariantChangesFrom.simps orQuestion_def)
next
  show "findVariantChanges [Some t, None] = [\<lparr>step = 1, fromTag = t, toTag = ''?''\<rparr>]"
    by (simp add: findVariantChanges_def findVariantChangesFrom.simps orQuestion_def)
next
  show "findVariantChanges [Some ''A'', Some ''A'', Some ''B'', Some ''B'', Some ''A''] =
       [\<lparr>step = 2, fromTag = ''A'', toTag = ''B''\<rparr>, \<lparr>step = 4, fromTag = ''B'', toTag = ''A''\<rparr>]"
    by (simp add: findVariantChanges_def findVariantChangesFrom.simps orQuestion_def)
qed

theorem findVariantChanges_events_witness:
  "(1::nat) \<le> 3 \<and> (3::nat) \<le> length [Some ''A'', None, None, Some ''?''] - 1
   \<and> [Some ''A'', None, None, Some ''?''] ! 3 \<noteq> [Some ''A'', None, None, Some ''?''] ! (3 - 1)
   \<and> findVariantChanges [Some ''A'', None, None, Some ''?''] =
       [\<lparr>step = 1, fromTag = ''A'', toTag = ''?''\<rparr>, \<lparr>step = 3, fromTag = ''?'', toTag = ''?''\<rparr>]"
  using findVariantChanges_events [of "[Some ''A'', None, None, Some ''?'']" 3]
  by (simp add: changeAt_def orQuestion_def upt_conv_Cons)

section \<open>Cell extraction and classification\<close>

text \<open>
  Claim C6. Numeric extraction returns 42 for the cell \<open>{"#bigint": "42"}\<close> and 7 for the
  plain cell \<open>7\<close>; for the cell \<open>{"tag": "Idle"}\<close> numeric extraction returns the absence
  marker while variant-tag extraction returns the tag \<open>Idle\<close>.
\<close>

theorem extract_documented_cells:
  "extractNumeric prim (JObj [(''#bigint'', JStr ''42'')]) = Some (Num 42)
   \<and> extractNumeric prim (JNum (Num 7)) = Some (Num 7)
   \<and> extractNumeric prim (JObj [(''tag'', JStr ''Idle'')]) = None
   \<and> extractVariantTag (JObj [(''tag'', JStr ''Idle'')]) = Some ''Idle''"
  by (simp add: Number_def digit_of_def)

text \<open>
  Claim C7. For every first state and every declared variable list, the two groups
  returned by the Variable Classifier are disjoint: no name is in both the numeric group
  and the variant group.
\<close>

theorem classifyVars_disjoint:
  "set (numeric (classifyVars prim state varNames))
     \<inter> set (variant (classifyVars prim state varNames)) = {}"
  by (auto simp: classifyVars_def numeric_classifyLoop variant_classifyLoop)

text \<open>
  Claim C9. For every big-integer wrapper cell, an object whose \<open>#bigint\<close> property is a
  string \<open>s\<close>, numeric extraction returns the result of the numeric parse of \<open>s\<close>, also when
  that result is \<open>NaN\<close>, and never the absence marker. A listed variable whose first-state
  cell is such a wrapper is therefore in the numeric group, and not in the variant group,
  whatever the payload.
\<close>

theorem bigint_wrapper_is_numeric:
  "map_of props ''#bigint'' = Some (JStr s) \<Longrightarrow>
   extractNumeric prim (JObj props) = Some (Number prim s)
   \<and> extractNumeric prim (JObj props) \<noteq> None
   \<and> (Number prim s = NaN \<longrightarrow> extractNumeric prim (JObj props) = Some NaN)
   \<and> (v \<in> set varNames \<and> getprop state v = JObj props \<longrightarrow>
        v \<in> set (numeric (classifyVars prim state varNames))
        \<and> v \<notin> set (variant (classifyVars prim state varNames)))"
  by (simp add: classifyVars_def numeric_classifyLoop variant_classifyLoop)

theorem bigint_wrapper_is_numeric_witness:
  "map_of [(''#bigint'', JStr ''twelve''), (''tag'', JStr ''T'')] ''#bigint'' = Some (JStr ''twelve'')
   \<and> Number nanPrim ''twelve'' = NaN
   \<and> extractNumeric nanPrim (JObj [(''#bigint'', JStr ''twelve''), (''tag'', JStr ''T'')]) = Some NaN
   \<and> ''m::n'' \<in> set [''m::n'']
   \<and> getprop [(''m::n'', JObj [(''#bigint'', JStr ''twelve''), (''tag'', JStr ''T'')])] ''m::n''
       = JObj [(''#bigint'', JStr ''twelve''), (''tag'', JStr ''T'')]
   \<and> classifyVars nanPrim
        [(''m::n'', JObj [(''#bigint'', JStr ''twelve''), (''tag'', JStr ''T'')])] [''m::n'']
       = \<lparr>numeric = [''m::n''], variant = []\<rparr>"
  using bigint_wrapper_is_numeric [of "[(''#bigint'', JStr ''twelve''), (''tag'', JStr ''T'')]"
      "''twelve''" nanPrim "''m::n''" "[''m::n'']"
      "[(''m::n'', JObj [(''#bigint'', JStr ''twelve''), (''tag'', JStr ''T'')])]"]
  by (simp add: classifyVars_def getprop_def Number_def nanPrim_def digit_of_def)

section \<open>Name normalisation\<close>

text \<open>
  Claim C8. Name normalisation is idempotent; a name made of \<open>k\<close> separator-delimited
  segments is normalised to exactly its last segment; a name without separator is returned
  unchanged. Every name is the join of its segments, the pieces \<open>split_sep\<close> cuts it into,
  none of which contains the separator, and \<open>stripPrefix\<close> returns the last of them.
  Conversely, for a name written as \<open>k\<close> segments joined by the separator, each free of the
  separator and none but the last ending in a colon (a colon there would pair with the
  colon behind it, and the separators are found from the left), \<open>stripPrefix\<close> returns the
  last segment, for any \<open>k\<close>.
\<close>

theorem stripPrefix_last_segment:
  "stripPrefix (stripPrefix s) = stripPrefix s
   \<and> (split_sep s \<noteq> [] \<and> join_sep (split_sep s) = s
        \<and> (\<forall>p\<in>set (split_sep s). \<not> has_sep p) \<and> stripPrefix s = last (split_sep s))
   \<and> (segs \<noteq> [] \<and> (\<forall>p\<in>set segs. \<not> has_sep p)
        \<and> (\<forall>p\<in>set (butlast segs). p = [] \<or> last p \<noteq> CHR '':'')
      \<longrightarrow> stripPrefix (join_sep segs) = last segs)
   \<and> (\<not> has_sep s \<longrightarrow> stripPrefix s = s)"
  using split_sep_pieces [of s]
  by (simp add: stripPrefix_idem split_sep_nonempty join_split stripPrefix_last
      split_join split_sep_no_sep)

theorem stripPrefix_last_segment_witness:
  "[''insulinPump'', ''state'', ''reservoir''] \<noteq> []
   \<and> \<not> has_sep ''insulinPump'' \<and> \<not> has_sep ''state'' \<and> \<not> has_sep ''reservoir''
   \<and> last ''insulinPump'' \<noteq> CHR '':'' \<and> last ''state'' \<noteq> CHR '':''
   \<and> join_sep [''insulinPump'', ''state'', ''reservoir''] = ''insulinPump::state::reservoir''
   \<and> stripPrefix ''insulinPump::state::reservoir'' = ''reservoir''
   \<and> stripPrefix ''reservoir'' = ''reservoir''"
  using stripPrefix_last_segment [of "''reservoir''" "[''insulinPump'', ''state'', ''reservoir'']"]
  by simp

end
